theory Spec2Isabelle
  imports Complex_Main "HOL-Library.Word" "HOL-Library.List_Lexorder" "HOL-Library.Product_Lexorder"
begin

section \<open>JavaScript values read by the recorder\<close>

text \<open>
  A JavaScript string is a sequence of UTF-16 code units and \<open>.length\<close> counts them, so
  a string is modelled as a list of 16-bit words. \<open>lit\<close> embeds an ASCII literal of the
  source (\<open>"Enter"\<close>, \<open>"Backspace"\<close>, ...).
\<close>

type_synonym js_string = "16 word list"

definition lit :: "string \<Rightarrow> js_string" where
  "lit s = map (\<lambda>c. word_of_nat (of_char c)) s"

text \<open>\<open>String(n)\<close> for a non-negative integer: its decimal digits.\<close>

definition digit :: "nat \<Rightarrow> char" where
  "digit d = ''0123456789'' ! d"

fun decimal :: "nat \<Rightarrow> string" where
  "decimal n = (if n < 10 then [digit n] else decimal (n div 10) @ [digit (n mod 10)])"

declare decimal.simps [simp del]

definition String_of :: "nat \<Rightarrow> js_string" where
  "String_of n = lit (decimal n)"

text \<open>\<open>s.startsWith(p)\<close>.\<close>

definition startsWith :: "js_string \<Rightarrow> js_string \<Rightarrow> bool" where
  "startsWith s p = (take (length p) s = p)"

text \<open>
  The fields of the DOM \<open>KeyboardEvent\<close> that the handlers read. \<open>e_keyCode\<close> is 0 when
  the browser gives none (the source writes \<open>e.keyCode || 0\<close>).
\<close>

record key_event =
  e_key :: js_string
  e_keyCode :: nat
  e_metaKey :: bool
  e_ctrlKey :: bool
  e_repeat :: bool

text \<open>The object literal \<open>keystroke\<close> built in \<open>handleKeyUp\<close>; times are integer milliseconds.\<close>

record keystroke =
  key :: js_string
  keyCode :: js_string
  pressTime :: int
  releaseTime :: int
  dwellTime :: int
  flightTime :: int

datatype view = Home | Train | Test

datatype endpoint = ApiVerify | ApiSessions

text \<open>
  The request \<open>submitData\<close> posts: the endpoint and the JSON body. \<open>p_text\<close> is the
  body's \<open>text\<close>; \<open>startedAt\<close> is the clock value at the time of posting, which the source
  formats as an ISO date.
\<close>

record payload =
  p_endpoint :: endpoint
  userId :: js_string
  p_text :: js_string
  startedAt :: int
  keystrokes :: "keystroke list"

section \<open>The state of the \<open>App\<close> component\<close>

text \<open>
  The \<open>useState\<close> cells and the two \<open>useRef\<close> cells the recorder owns. \<open>typed_text\<close> is
  the source's \<open>text\<close>. The cells that only hold what the backend answered
  (\<open>lastResponse\<close>, \<open>verificationMatrix\<close>, \<open>errorMsg\<close>, \<open>trainCount\<close>) and the displayed
  \<open>targetText\<close> are read by no handler and are left out.

  \<open>keyDownTimes\<close> is the object \<open>keyDownTimes.current\<close>: the handlers index it only with a
  key of length 1 or the key \<open>"Space"\<close>, none of which is a property inherited from
  \<open>Object.prototype\<close>, so a lookup is \<open>undefined\<close> exactly when the key was not stored:
  a partial map.
\<close>

record app =
  view :: view
  username :: js_string
  isRecording :: bool
  isCompleted :: bool
  keystrokeData :: "keystroke list"
  typed_text :: js_string
  sessionStartTime :: "int option"
  keyDownTimes :: "js_string \<rightharpoonup> int"

definition App_init :: app where
  "App_init = \<lparr> view = Home, username = [], isRecording = False, isCompleted = False,
     keystrokeData = [], typed_text = [], sessionStartTime = None, keyDownTimes = Map.empty \<rparr>"

text \<open>\<open>!x\<close> for a cell that holds a number, \<open>null\<close> or \<open>undefined\<close>.\<close>

definition falsy :: "int option \<Rightarrow> bool" where
  "falsy v = (v = None \<or> v = Some 0)"

text \<open>\<open>Date.now() - sessionStartTime.current\<close>; \<open>null\<close> converts to 0.\<close>

definition since :: "int option \<Rightarrow> int \<Rightarrow> int" where
  "since start now = now - (case start of None \<Rightarrow> 0 | Some t \<Rightarrow> t)"

section \<open>The handlers\<close>

text \<open>
  A handler runs against the values of the render it was created in and queues its
  \<open>set...\<close> calls; React renders again before it delivers the next keyboard event. So a
  handler is a function from the state \<open>s\<close> it was rendered with to the next state. The
  two refs are written at once; the \<open>useState\<close> values a handler tests are those of \<open>s\<close>
  even after a \<open>set...\<close> call in the same handler. \<open>now\<close> is what \<open>Date.now()\<close> reads
  during the handler.
\<close>

definition resetInternalState :: "app \<Rightarrow> app" where
  "resetInternalState s = s\<lparr> isRecording := False, isCompleted := False,
     sessionStartTime := None, keyDownTimes := Map.empty, keystrokeData := [],
     typed_text := [] \<rparr>"

definition startSession :: "int \<Rightarrow> app \<Rightarrow> app" where
  "startSession now s =
     (if falsy (sessionStartTime s)
      then s\<lparr> sessionStartTime := Some now, isRecording := True, keystrokeData := [],
             typed_text := [], keyDownTimes := Map.empty, isCompleted := False \<rparr>
      else s)"

definition submitData :: "int \<Rightarrow> app \<Rightarrow> payload option" where
  "submitData now s =
     (if length (keystrokeData s) = 0 then None
      else Some \<lparr> p_endpoint = (if view s = Test then ApiVerify else ApiSessions),
                  userId = username s, p_text = typed_text s, startedAt = now,
                  keystrokes = keystrokeData s \<rparr>)"

text \<open>\<open>stopSession\<close>: the next state and what is posted, if anything.\<close>

definition stopSession :: "int \<Rightarrow> app \<Rightarrow> app \<Rightarrow> app \<times> payload option" where
  "stopSession now s s1 =
     (s1\<lparr> isRecording := False, isCompleted := True \<rparr>,
      if length (keystrokeData s) > 0 then submitData now s else None)"

text \<open>The test of lines 156 to 162 of \<open>App.jsx\<close>.\<close>

definition suppressed :: "key_event \<Rightarrow> bool" where
  "suppressed e =
     (startsWith (e_key e) (lit ''F'') \<and> length (e_key e) > 1 \<or>
      e_key e = lit ''Escape'' \<or>
      e_key e = lit ''Tab'' \<or>
      e_metaKey e \<or>
      e_ctrlKey e)"

text \<open>
  \<open>handleKeyDown\<close>. \<open>s1\<close> is the state after the call of \<open>startSession\<close>, when there is
  one; the tests of \<open>isRecording\<close> and of \<open>keystrokeData.length\<close> read the render's values,
  those of \<open>s\<close>.
\<close>

definition handleKeyDown :: "key_event \<Rightarrow> int \<Rightarrow> app \<Rightarrow> app \<times> payload option" where
  "handleKeyDown e now s =
     (let s1 = (if \<not> isRecording s \<and> \<not> isCompleted s then startSession now s else s) in
      if \<not> isRecording s then (s1, None)
      else if e_key e = lit ''Enter'' then stopSession now s s1
      else if e_key e = lit ''Backspace'' then
        (if length (keystrokeData s) > 0
         then s1\<lparr> keystrokeData := butlast (keystrokeData s1) \<rparr> else s1, None)
      else if suppressed e then (s1, None)
      else if length (e_key e) = 1 \<or> e_key e = lit ''Space'' then
        (let timestamp = since (sessionStartTime s1) now in
         if e_repeat e then (s1, None)
         else if falsy (keyDownTimes s1 (e_key e))
           then (s1\<lparr> keyDownTimes := (keyDownTimes s1)(e_key e \<mapsto> timestamp) \<rparr>, None)
           else (s1, None))
      else (s1, None))"

definition handleKeyUp :: "key_event \<Rightarrow> int \<Rightarrow> app \<Rightarrow> app" where
  "handleKeyUp e now s =
     (if \<not> isRecording s then s
      else if length (e_key e) \<noteq> 1 \<and> e_key e \<noteq> lit ''Space'' then s
      else
        (let timestamp = since (sessionStartTime s) now in
         case keyDownTimes s (e_key e) of
           None \<Rightarrow> s
         | Some keyDownTime \<Rightarrow>
             (let dwell = timestamp - keyDownTime;
                  flight = (if length (keystrokeData s) > 0
                            then keyDownTime - releaseTime (last (keystrokeData s))
                            else 0);
                  k = \<lparr> key = (if e_key e = lit '' '' then lit ''Space'' else e_key e),
                        keyCode = String_of (e_keyCode e),
                        pressTime = keyDownTime,
                        releaseTime = timestamp,
                        dwellTime = dwell,
                        flightTime = flight \<rparr>
              in s\<lparr> keystrokeData := keystrokeData s @ [k],
                     keyDownTimes := (keyDownTimes s)(e_key e := None) \<rparr>)))"

definition handleChange :: "js_string \<Rightarrow> app \<Rightarrow> app" where
  "handleChange v s = (if \<not> isRecording s then s else s\<lparr> typed_text := v \<rparr>)"

text \<open>
  \<open>setView\<close> followed by the effect that depends on \<open>view\<close>: it runs when the value
  changed, and resets the recorder when the new view is the training or the test page.
\<close>

definition changeView :: "view \<Rightarrow> app \<Rightarrow> app" where
  "changeView v s =
     (if v = view s then s
      else if v = Train \<or> v = Test then resetInternalState (s\<lparr> view := v \<rparr>)
      else s\<lparr> view := v \<rparr>)"

section \<open>Runs of the component\<close>

text \<open>
  What can happen to the component: a key goes down or up in the text area while the
  clock reads the given value, the text area's content changes, the reset button is
  clicked, the user switches the page or edits the user name.
\<close>

datatype event =
    KeyDown key_event int
  | KeyUp key_event int
  | Change js_string
  | Reset
  | SetView view
  | SetUsername js_string

fun step :: "event \<Rightarrow> app \<Rightarrow> app \<times> payload option" where
  "step (KeyDown e now) s = handleKeyDown e now s"
| "step (KeyUp e now) s = (handleKeyUp e now s, None)"
| "step (Change v) s = (handleChange v s, None)"
| "step Reset s = (resetInternalState s, None)"
| "step (SetView v) s = (changeView v s, None)"
| "step (SetUsername u) s = (s\<lparr> username := u \<rparr>, None)"

fun run :: "event list \<Rightarrow> app \<Rightarrow> app" where
  "run [] s = s"
| "run (ev # evs) s = run evs (fst (step ev s))"

text \<open>The clock values read along a run, in order.\<close>

fun clock_reads :: "event list \<Rightarrow> int list" where
  "clock_reads [] = []"
| "clock_reads (KeyDown e now # evs) = now # clock_reads evs"
| "clock_reads (KeyUp e now # evs) = now # clock_reads evs"
| "clock_reads (ev # evs) = clock_reads evs"

text \<open>The three states of the recorder, read off the two flags.\<close>

datatype phase = Idle | Recording | Completed

definition phase_of :: "app \<Rightarrow> phase" where
  "phase_of s = (if isRecording s then Recording else if isCompleted s then Completed else Idle)"

text \<open>A key event with no modifier held and no auto-repeat.\<close>

definition plain_key :: "js_string \<Rightarrow> key_event" where
  "plain_key k = \<lparr> e_key = k, e_keyCode = 0, e_metaKey = False, e_ctrlKey = False, e_repeat = False \<rparr>"

section \<open>Auxiliary notions for the recorder\<close>

text \<open>The requests posted along a run, in order.\<close>

fun posts :: "event list \<Rightarrow> app \<Rightarrow> payload list" where
  "posts [] s = []"
| "posts (ev # evs) s =
     (case snd (step ev s) of None \<Rightarrow> [] | Some p \<Rightarrow> [p]) @ posts evs (fst (step ev s))"

text \<open>
  The events that can call \<open>resetInternalState\<close>: the reset button and a switch of the
  page. They come from outside the text area.
\<close>

fun external_reset :: "event \<Rightarrow> bool" where
  "external_reset Reset = True"
| "external_reset (SetView v) = True"
| "external_reset ev = False"

text \<open>The test both handlers make of a key before they touch \<open>keyDownTimes\<close>.\<close>

definition printable :: "js_string \<Rightarrow> bool" where
  "printable k = (length k = 1 \<or> k = lit ''Space'')"

text \<open>
  The buffer holds printable keys only, and holds nothing while the recorder is idle.
\<close>

definition buffer_ok :: "app \<Rightarrow> bool" where
  "buffer_ok s = (\<forall>k t. keyDownTimes s k = Some t \<longrightarrow> printable k \<and> phase_of s \<noteq> Idle)"

text \<open>While the recorder is idle no session start is set.\<close>

definition idle_unset :: "app \<Rightarrow> bool" where
  "idle_unset s = (phase_of s = Idle \<longrightarrow> sessionStartTime s = None)"

text \<open>An auto-repeat key-down of key \<open>k\<close>.\<close>

fun is_repeat_of :: "js_string \<Rightarrow> event \<Rightarrow> bool" where
  "is_repeat_of k (KeyDown e now) = (e_key e = k \<and> e_repeat e)"
| "is_repeat_of k ev = False"

text \<open>
  Flight times along a recorded sequence: 0 at the head, and from then on the press
  time minus the release time of the event before.
\<close>

definition chained :: "keystroke list \<Rightarrow> bool" where
  "chained xs = ((xs \<noteq> [] \<longrightarrow> flightTime (xs ! 0) = 0) \<and>
     (\<forall>i. Suc i < length xs \<longrightarrow>
        flightTime (xs ! Suc i) = pressTime (xs ! Suc i) - releaseTime (xs ! i)))"

text \<open>
  What holds of a state when no clock value read so far exceeds \<open>lo\<close>: an idle recorder
  holds nothing, every buffered press and every release lies at or before \<open>lo\<close>, every
  event was released no earlier than it was pressed, and the release times ascend.
\<close>

definition timely :: "int \<Rightarrow> app \<Rightarrow> bool" where
  "timely lo s =
     ((phase_of s = Idle \<longrightarrow> keyDownTimes s = Map.empty \<and> keystrokeData s = []) \<and>
      (\<forall>k t. keyDownTimes s k = Some t \<longrightarrow> t \<le> since (sessionStartTime s) lo) \<and>
      (\<forall>x \<in> set (keystrokeData s).
          pressTime x \<le> releaseTime x \<and> dwellTime x = releaseTime x - pressTime x \<and>
          releaseTime x \<le> since (sessionStartTime s) lo) \<and>
      sorted (map releaseTime (keystrokeData s)))"

subsection \<open>Concrete key events and runs\<close>

definition repeat_key :: "js_string \<Rightarrow> key_event" where
  "repeat_key k = (plain_key k)\<lparr> e_repeat := True \<rparr>"

definition ctrl_key :: "js_string \<Rightarrow> key_event" where
  "ctrl_key k = (plain_key k)\<lparr> e_ctrlKey := True \<rparr>"

text \<open>The training page, freshly opened by user \<open>alice\<close>.\<close>

definition idle_state :: app where
  "idle_state = run [SetUsername (lit ''alice''), SetView Train] App_init"

text \<open>
  The first key-down starts the session at clock 1000. Then \<open>o\<close> goes down, the space
  bar goes down before \<open>o\<close> is released, and both are released.
\<close>

definition overlap_trace :: "event list" where
  "overlap_trace =
     [SetUsername (lit ''alice''), SetView Train,
      KeyDown (plain_key (lit ''T'')) 1000, KeyUp (plain_key (lit ''T'')) 1080,
      KeyDown (plain_key (lit ''o'')) 1100, KeyDown (plain_key (lit '' '')) 1150,
      KeyUp (plain_key (lit ''o'')) 1200, KeyUp (plain_key (lit '' '')) 1230]"

text \<open>The session is started and \<open>o\<close> is held down.\<close>

definition pending_trace :: "event list" where
  "pending_trace =
     [SetUsername (lit ''alice''), SetView Train,
      KeyDown (plain_key (lit ''T'')) 1000, KeyUp (plain_key (lit ''T'')) 1080,
      KeyDown (plain_key (lit ''o'')) 1100]"

text \<open>Enter is pressed while \<open>o\<close> is still held; then more events reach the text area.\<close>

definition completed_trace :: "event list" where
  "completed_trace = pending_trace @ [KeyDown (plain_key (lit ''Enter'')) 1300]"

definition late_events :: "event list" where
  "late_events =
     [KeyUp (plain_key (lit ''o'')) 1350, KeyDown (plain_key (lit ''a'')) 1400,
      KeyUp (plain_key (lit ''a'')) 1450, KeyDown (plain_key (lit ''Backspace'')) 1500,
      KeyDown (plain_key (lit ''Enter'')) 1550, Change (lit ''oa'')]"

text \<open>A run during which the system clock is set back by 50 ms while \<open>o\<close> is held.\<close>

definition backward_clock_trace :: "event list" where
  "backward_clock_trace =
     [SetUsername (lit ''alice''), SetView Train,
      KeyDown (plain_key (lit ''T'')) 1000,
      KeyDown (plain_key (lit ''o'')) 1100, KeyUp (plain_key (lit ''o'')) 1050]"

text \<open>
  Rollover typing with a deletion: \<open>T\<close> starts the session, \<open>a\<close> goes down, \<open>b\<close> goes down
  before \<open>a\<close> is released, \<open>a\<close> is released, Backspace deletes the \<open>b\<close> just typed while
  \<open>b\<close> is still held, and \<open>b\<close> is released. The \<open>Change\<close> events carry the content of the
  text area after each key.
\<close>

definition rollover_trace :: "event list" where
  "rollover_trace =
     [SetUsername (lit ''alice''), SetView Train,
      KeyDown (plain_key (lit ''T'')) 1000, Change (lit ''T''), KeyUp (plain_key (lit ''T'')) 1080,
      KeyDown (plain_key (lit ''a'')) 1100, Change (lit ''Ta''),
      KeyDown (plain_key (lit ''b'')) 1150, Change (lit ''Tab''),
      KeyUp (plain_key (lit ''a'')) 1200,
      KeyDown (plain_key (lit ''Backspace'')) 1250, Change (lit ''Ta''),
      KeyUp (plain_key (lit ''b'')) 1300]"

section \<open>The verification engine\<close>

text \<open>
  Modelled from the spec: the backend that answers \<open>POST /api/verify\<close> is not among the
  sources (only the README's line on the endpoint and the table \<open>App.jsx\<close> renders from the
  answer are). The definitions of this section follow sections 3 and 4.3 of the
  specification. Times and distances are rational numbers.

  A profile maps a key to its mean dwell time, mean flight time and occurrence count; a
  reference profile maps a key to the two means.
\<close>

type_synonym features = "rat \<times> rat \<times> nat"

type_synonym profile = "(js_string \<times> features) list"

type_synonym reference = "(js_string \<times> rat \<times> rat) list"

record enrolled_user =
  identity :: js_string
  trainingProfiles :: "profile list"

record match_entry =
  m_identity :: js_string
  score :: rat
  confidencePercent :: rat

record verification_result =
  claimedIdentity :: js_string
  matches :: "match_entry list"
  verified :: bool

record config =
  mismatchPenalty :: rat
  D_ref :: rat
  acceptanceThreshold :: rat

datatype engine_error = EmptyProfile

text \<open>Modelled from the spec: the arithmetic mean.\<close>

definition arith_mean :: "rat list \<Rightarrow> rat" where
  "arith_mean xs = sum_list xs / of_nat (length xs)"

text \<open>
  Modelled from the spec: step 1 of section 4.3. For each key present in at least one
  training profile, the means are averaged over the profiles that contain the key.
\<close>

definition referenceProfile :: "profile list \<Rightarrow> reference" where
  "referenceProfile ps =
     map (\<lambda>k. let fs = concat (map (\<lambda>p. case map_of p k of None \<Rightarrow> [] | Some f \<Rightarrow> [f]) ps)
              in (k, arith_mean (map fst fs), arith_mean (map (fst \<circ> snd) fs)))
         (remdups (concat (map (map fst) ps)))"

text \<open>
  Modelled from the spec: step 2 of section 4.3, the contribution of one key. A key
  present in one profile only costs the mismatch penalty once per feature dimension
  (dwell and flight).
\<close>

definition key_distance :: "config \<Rightarrow> profile \<Rightarrow> reference \<Rightarrow> js_string \<Rightarrow> rat" where
  "key_distance cfg test ref k =
     (case (map_of test k, map_of ref k) of
        (Some (d, f, n), Some (d', f')) \<Rightarrow> \<bar>d - d'\<bar> + \<bar>f - f'\<bar>
      | _ \<Rightarrow> 2 * mismatchPenalty cfg)"

text \<open>
  Modelled from the spec: step 2 of section 4.3, the sum over the keys of either profile,
  divided by their number. There is at least one key when the test profile is not empty,
  and \<open>verify\<close> refuses an empty test profile before it computes any distance.
\<close>

definition manhattan :: "config \<Rightarrow> profile \<Rightarrow> reference \<Rightarrow> rat" where
  "manhattan cfg test ref =
     (let K = remdups (map fst test @ map fst ref)
      in sum_list (map (key_distance cfg test ref) K) / of_nat (length K))"

text \<open>Modelled from the spec: step 3 of section 4.3.\<close>

definition confidence :: "config \<Rightarrow> rat \<Rightarrow> rat" where
  "confidence cfg d = 100 * max 0 (1 - d / D_ref cfg)"

text \<open>
  Modelled from the spec: step 4 of section 4.3, ascending by distance, ties broken by
  the order of the identity strings.
\<close>

definition rank_matches :: "match_entry list \<Rightarrow> match_entry list" where
  "rank_matches ms = sort_key (\<lambda>m. (score m, m_identity m)) ms"

text \<open>
  Modelled from the spec: \<open>verify\<close> of section 4.3 with its edge cases. An empty test
  profile is refused with \<open>EmptyProfile\<close>; identities with no training profile are left
  out; \<open>verified\<close> is step 5.
\<close>

definition verify ::
  "config \<Rightarrow> js_string \<Rightarrow> profile \<Rightarrow> enrolled_user list \<Rightarrow> engine_error + verification_result" where
  "verify cfg claimed test users =
     (if test = [] then Inl EmptyProfile
      else
        (let eligible = filter (\<lambda>u. trainingProfiles u \<noteq> []) users;
             ms = rank_matches (map (\<lambda>u.
                    let d = manhattan cfg test (referenceProfile (trainingProfiles u))
                    in \<lparr> m_identity = identity u, score = d,
                         confidencePercent = confidence cfg d \<rparr>) eligible)
         in Inr \<lparr> claimedIdentity = claimed, matches = ms,
                  verified = (case ms of [] \<Rightarrow> False
                              | m # _ \<Rightarrow> m_identity m = claimed \<and>
                                  acceptanceThreshold cfg \<le> confidencePercent m) \<rparr>))"

text \<open>
  The scenario of section 8: \<open>alice\<close> enrolled three times with key \<open>a\<close> at dwell 100 and
  flight 50, a second user \<open>bob\<close> with another rhythm, \<open>carol\<close> without training profile.
\<close>

definition demo_config :: config where
  "demo_config = \<lparr> mismatchPenalty = 100, D_ref = 100, acceptanceThreshold = 50 \<rparr>"

definition alice_sample :: "nat \<Rightarrow> profile" where
  "alice_sample n = [(lit ''a'', 100, 50, n)]"

definition bob_sample :: profile where
  "bob_sample = [(lit ''a'', 150, 90, 4)]"

definition demo_users :: "enrolled_user list" where
  "demo_users =
     [\<lparr> identity = lit ''bob'', trainingProfiles = [bob_sample] \<rparr>,
      \<lparr> identity = lit ''carol'', trainingProfiles = [] \<rparr>,
      \<lparr> identity = lit ''alice'',
         trainingProfiles = [alice_sample 2, alice_sample 3, alice_sample 1] \<rparr>]"

definition demo_test :: profile where
  "demo_test = [(lit ''a'', 105, 52, 2)]"

section \<open>Facts about literals\<close>

lemma length_lit [simp]: "length (lit s) = length s"
  by (simp add: lit_def)

lemma unat_code_unit: "unat (word_of_nat (of_char c) :: 16 word) = of_char c"
proof -
  have "(of_char c :: nat) < 65536"
    using nat_of_char_less_256 [of c] by linarith
  then show ?thesis by (simp add: unat_of_nat)
qed

lemma lit_eq_iff [simp]: "lit a = lit b \<longleftrightarrow> a = b"
proof
  assume h: "lit a = lit b"
  have "map (\<lambda>c. unat (word_of_nat (of_char c) :: 16 word)) a =
        map (\<lambda>c. unat (word_of_nat (of_char c) :: 16 word)) b"
    using arg_cong [OF h, of "map unat"] by (simp add: lit_def comp_def)
  then have "map (of_char :: char \<Rightarrow> nat) a = map of_char b"
    by (simp add: unat_code_unit)
  then show "a = b"
    using inj_of_char [where ?'a = nat] by (simp add: inj_map_eq_map)
next
  assume "a = b" then show "lit a = lit b" by simp
qed

lemma take_lit: "take n (lit s) = lit (take n s)"
  by (simp add: lit_def take_map)

lemma String_of_0: "String_of 0 = lit ''0''"
  by (simp add: String_of_def decimal.simps digit_def)

lemmas handler_defs = handleKeyDown_def handleKeyUp_def handleChange_def changeView_def
  resetInternalState_def startSession_def stopSession_def submitData_def suppressed_def
  startsWith_def falsy_def since_def plain_key_def Let_def

lemma phase_simps:
  "phase_of s = Recording \<longleftrightarrow> isRecording s"
  "phase_of s = Completed \<longleftrightarrow> \<not> isRecording s \<and> isCompleted s"
  "phase_of s = Idle \<longleftrightarrow> \<not> isRecording s \<and> \<not> isCompleted s"
  by (simp_all add: phase_of_def)

lemma run_append: "run (xs @ ys) s = run ys (run xs s)"
  by (induction xs arbitrary: s) simp_all

section \<open>Invariants of the recorder\<close>

subsection \<open>What a key-up does\<close>

text \<open>Nothing, or it closes the buffered press of its key.\<close>

lemma keyup_cases:
  "handleKeyUp e now s = s \<or>
   (\<exists>x. handleKeyUp e now s =
          s\<lparr> keystrokeData := keystrokeData s @ [x],
             keyDownTimes := (keyDownTimes s)(e_key e := None) \<rparr> \<and>
        isRecording s \<and> printable (e_key e) \<and>
        keyDownTimes s (e_key e) = Some (pressTime x) \<and>
        releaseTime x = since (sessionStartTime s) now \<and>
        dwellTime x = releaseTime x - pressTime x \<and>
        flightTime x = (if keystrokeData s = [] then 0
                        else pressTime x - releaseTime (last (keystrokeData s))))"
proof (cases "isRecording s \<and> printable (e_key e)")
  case False
  then have "handleKeyUp e now s = s" by (auto simp: handleKeyUp_def printable_def)
  then show ?thesis by simp
next
  case True
  show ?thesis
  proof (cases "keyDownTimes s (e_key e)")
    case None
    then have "handleKeyUp e now s = s" by (simp add: handleKeyUp_def Let_def)
    then show ?thesis by simp
  next
    case (Some t)
    let ?x = "\<lparr> key = (if e_key e = lit '' '' then lit ''Space'' else e_key e),
                keyCode = String_of (e_keyCode e), pressTime = t,
                releaseTime = since (sessionStartTime s) now,
                dwellTime = since (sessionStartTime s) now - t,
                flightTime = (if length (keystrokeData s) > 0
                              then t - releaseTime (last (keystrokeData s)) else 0) \<rparr>"
    have "handleKeyUp e now s =
            s\<lparr> keystrokeData := keystrokeData s @ [?x],
               keyDownTimes := (keyDownTimes s)(e_key e := None) \<rparr>"
      using True Some by (auto simp: handleKeyUp_def Let_def printable_def)
    then show ?thesis using True Some
      by (intro disjI2 exI [of _ ?x]) simp
  qed
qed

lemma keyup_closes:
  assumes "isRecording s" and "printable (e_key e)" and "keyDownTimes s (e_key e) = Some t"
  shows "\<exists>x. handleKeyUp e now s =
            s\<lparr> keystrokeData := keystrokeData s @ [x],
               keyDownTimes := (keyDownTimes s)(e_key e := None) \<rparr> \<and>
          pressTime x = t \<and> releaseTime x = since (sessionStartTime s) now"
proof -
  from keyup_cases [of e now s] show ?thesis
  proof
    assume same: "handleKeyUp e now s = s"
    have "keystrokeData (handleKeyUp e now s) \<noteq> keystrokeData s"
      using assms by (auto simp: handleKeyUp_def Let_def printable_def)
    with same show ?thesis by simp
  next
    assume "\<exists>x. handleKeyUp e now s =
          s\<lparr> keystrokeData := keystrokeData s @ [x],
             keyDownTimes := (keyDownTimes s)(e_key e := None) \<rparr> \<and>
        isRecording s \<and> printable (e_key e) \<and>
        keyDownTimes s (e_key e) = Some (pressTime x) \<and>
        releaseTime x = since (sessionStartTime s) now \<and>
        dwellTime x = releaseTime x - pressTime x \<and>
        flightTime x = (if keystrokeData s = [] then 0
                        else pressTime x - releaseTime (last (keystrokeData s)))"
    then show ?thesis using assms(3) by auto
  qed
qed

subsection \<open>The buffer holds printable keys, and nothing while idle\<close>

lemma keydown_buffer_ok:
  assumes "buffer_ok s"
  shows "buffer_ok (fst (handleKeyDown e now s))"
proof (cases "isRecording s")
  case False
  then show ?thesis using assms
    by (auto simp: buffer_ok_def handleKeyDown_def startSession_def phase_simps)
next
  case True
  then show ?thesis using assms
    by (auto simp: buffer_ok_def handleKeyDown_def stopSession_def Let_def printable_def
        phase_simps split: if_splits)
qed

lemma keyup_buffer_ok:
  assumes "buffer_ok s"
  shows "buffer_ok (handleKeyUp e now s)"
  using keyup_cases [of e now s] assms
  by (auto simp: buffer_ok_def phase_simps split: if_splits)

lemma step_buffer_ok:
  assumes "buffer_ok s"
  shows "buffer_ok (fst (step ev s))"
proof (cases ev)
  case (KeyDown e now) then show ?thesis using keydown_buffer_ok [OF assms] by simp
next
  case (KeyUp e now) then show ?thesis using keyup_buffer_ok [OF assms] by simp
next
  case (Change v) then show ?thesis using assms
    by (auto simp: handleChange_def buffer_ok_def phase_simps)
next
  case Reset then show ?thesis by (simp add: resetInternalState_def buffer_ok_def)
next
  case (SetView v) then show ?thesis using assms
    by (auto simp: changeView_def resetInternalState_def buffer_ok_def phase_simps)
next
  case (SetUsername u) then show ?thesis using assms by (auto simp: buffer_ok_def phase_simps)
qed

lemma run_buffer_ok: "buffer_ok s \<Longrightarrow> buffer_ok (run evs s)"
proof (induction evs arbitrary: s)
  case Nil then show ?case by simp
next
  case (Cons ev evs)
  show ?case using Cons.IH [OF step_buffer_ok [OF Cons.prems]] by simp
qed

lemma init_buffer_ok: "buffer_ok (run evs App_init)"
proof -
  have "buffer_ok App_init" by (simp add: buffer_ok_def App_init_def)
  then show ?thesis by (rule run_buffer_ok)
qed

subsection \<open>An idle recorder has no session start\<close>

lemma keydown_idle_unset:
  assumes "idle_unset s"
  shows "idle_unset (fst (handleKeyDown e now s))"
proof (cases "isRecording s")
  case False
  then show ?thesis using assms
    by (auto simp: idle_unset_def handleKeyDown_def startSession_def falsy_def phase_simps)
next
  case True
  then show ?thesis
    by (auto simp: idle_unset_def handleKeyDown_def stopSession_def Let_def phase_simps)
qed

lemma keyup_idle_unset:
  assumes "idle_unset s"
  shows "idle_unset (handleKeyUp e now s)"
  using keyup_cases [of e now s] assms
  by (auto simp: idle_unset_def phase_simps)

lemma step_idle_unset:
  assumes "idle_unset s"
  shows "idle_unset (fst (step ev s))"
proof (cases ev)
  case (KeyDown e now) then show ?thesis using keydown_idle_unset [OF assms] by simp
next
  case (KeyUp e now) then show ?thesis using keyup_idle_unset [OF assms] by simp
next
  case (Change v) then show ?thesis using assms
    by (auto simp: handleChange_def idle_unset_def phase_simps)
next
  case Reset then show ?thesis by (simp add: resetInternalState_def idle_unset_def)
next
  case (SetView v) then show ?thesis using assms
    by (auto simp: changeView_def resetInternalState_def idle_unset_def phase_simps)
next
  case (SetUsername u) then show ?thesis using assms by (auto simp: idle_unset_def phase_simps)
qed

lemma run_idle_unset: "idle_unset s \<Longrightarrow> idle_unset (run evs s)"
proof (induction evs arbitrary: s)
  case Nil then show ?case by simp
next
  case (Cons ev evs)
  show ?case using Cons.IH [OF step_idle_unset [OF Cons.prems]] by simp
qed

lemma init_idle_unset: "idle_unset (run evs App_init)"
proof -
  have "idle_unset App_init" by (simp add: idle_unset_def App_init_def)
  then show ?thesis by (rule run_idle_unset)
qed

lemma idle_keydown_starts:
  assumes "phase_of s = Idle" and "sessionStartTime s = None"
  shows "phase_of (fst (handleKeyDown e now s)) = Recording"
    and "sessionStartTime (fst (handleKeyDown e now s)) = Some now"
  using assms
  by (simp_all add: phase_simps handleKeyDown_def startSession_def falsy_def)

subsection \<open>Flight times\<close>

lemma chained_Nil: "chained []" by (simp add: chained_def)

lemma chained_snoc:
  assumes "chained xs"
    and "flightTime x = (if xs = [] then 0 else pressTime x - releaseTime (last xs))"
  shows "chained (xs @ [x])"
proof (cases "xs = []")
  case True then show ?thesis using assms by (simp add: chained_def)
next
  case False
  have hd0: "flightTime ((xs @ [x]) ! 0) = 0"
    using assms(1) False by (simp add: chained_def nth_append)
  have "flightTime ((xs @ [x]) ! Suc i) = pressTime ((xs @ [x]) ! Suc i) - releaseTime ((xs @ [x]) ! i)"
    if "Suc i < length (xs @ [x])" for i
  proof (cases "Suc i < length xs")
    case True
    then show ?thesis using assms(1) by (simp add: chained_def nth_append)
  next
    case F: False
    with that have i: "length xs = Suc i" by simp
    then have "last xs = xs ! i" using False by (simp add: last_conv_nth)
    then show ?thesis using assms(2) False i by (simp add: nth_append)
  qed
  with hd0 show ?thesis by (simp add: chained_def)
qed

lemma chained_butlast:
  assumes "chained xs"
  shows "chained (butlast xs)"
proof -
  have "flightTime (butlast xs ! 0) = 0" if "butlast xs \<noteq> []"
  proof -
    from that have "0 < length (butlast xs)" by (cases "butlast xs") simp_all
    then have "butlast xs ! 0 = xs ! 0" by (rule nth_butlast)
    moreover have "xs \<noteq> []" using that by auto
    ultimately show ?thesis using assms by (simp add: chained_def)
  qed
  moreover have "flightTime (butlast xs ! Suc i) =
      pressTime (butlast xs ! Suc i) - releaseTime (butlast xs ! i)"
    if "Suc i < length (butlast xs)" for i
  proof -
    from that have "butlast xs ! Suc i = xs ! Suc i" "butlast xs ! i = xs ! i"
      by (simp_all add: nth_butlast)
    moreover have "Suc i < length xs" using that by simp
    ultimately show ?thesis using assms by (simp add: chained_def)
  qed
  ultimately show ?thesis by (simp add: chained_def)
qed

lemma keydown_chained:
  "chained (keystrokeData s) \<Longrightarrow> chained (keystrokeData (fst (handleKeyDown e now s)))"
  by (auto simp: handleKeyDown_def startSession_def stopSession_def Let_def chained_Nil
      chained_butlast split: if_splits)

lemma keyup_chained:
  assumes "chained (keystrokeData s)"
  shows "chained (keystrokeData (handleKeyUp e now s))"
  using keyup_cases [of e now s] assms by (auto intro: chained_snoc)

lemma step_chained:
  assumes "chained (keystrokeData s)"
  shows "chained (keystrokeData (fst (step ev s)))"
proof (cases ev)
  case (KeyDown e now) then show ?thesis using keydown_chained [OF assms] by simp
next
  case (KeyUp e now) then show ?thesis using keyup_chained [OF assms] by simp
next
  case (Change v) then show ?thesis using assms by (simp add: handleChange_def)
next
  case Reset then show ?thesis by (simp add: resetInternalState_def chained_Nil)
next
  case (SetView v) then show ?thesis using assms
    by (simp add: changeView_def resetInternalState_def chained_Nil)
next
  case (SetUsername u) then show ?thesis using assms by simp
qed

lemma run_chained: "chained (keystrokeData s) \<Longrightarrow> chained (keystrokeData (run evs s))"
proof (induction evs arbitrary: s)
  case Nil then show ?case by simp
next
  case (Cons ev evs)
  show ?case using Cons.IH [OF step_chained [OF Cons.prems]] by simp
qed

subsection \<open>Times under a clock that never steps back\<close>

lemma since_mono: "lo \<le> now \<Longrightarrow> since st lo \<le> since st now"
  by (simp add: since_def)

lemma timely_mono: "timely lo s \<Longrightarrow> lo \<le> now \<Longrightarrow> timely now s"
  unfolding timely_def using since_mono [of lo now "sessionStartTime s"]
  by (meson order_trans)

lemma timely_init: "timely lo App_init"
  by (simp add: timely_def App_init_def)

lemma timely_reset: "timely lo (resetInternalState s)"
  by (simp add: timely_def resetInternalState_def)

lemma sorted_butlast_map: "sorted (map f xs) \<Longrightarrow> sorted (map f (butlast xs))"
  by (simp add: map_butlast sorted_butlast)

lemma keydown_timely:
  assumes "timely lo s" and "lo \<le> now"
  shows "timely now (fst (handleKeyDown e now s))"
proof -
  have t: "timely now s" using assms by (rule timely_mono)
  show ?thesis
  proof (cases "isRecording s")
    case False
    then show ?thesis using t
      by (auto simp: handleKeyDown_def startSession_def timely_def phase_simps)
  next
    case True
    then show ?thesis using t
      by (auto simp: handleKeyDown_def stopSession_def timely_def phase_simps Let_def
          sorted_butlast_map dest: in_set_butlastD)
  qed
qed

lemma keyup_timely:
  assumes "timely lo s" and "lo \<le> now"
  shows "timely now (handleKeyUp e now s)"
proof -
  have t: "timely now s" using assms by (rule timely_mono)
  from keyup_cases [of e now s] show ?thesis
  proof
    assume "handleKeyUp e now s = s" then show ?thesis using t by simp
  next
    assume "\<exists>x. handleKeyUp e now s =
          s\<lparr> keystrokeData := keystrokeData s @ [x],
             keyDownTimes := (keyDownTimes s)(e_key e := None) \<rparr> \<and>
        isRecording s \<and> printable (e_key e) \<and>
        keyDownTimes s (e_key e) = Some (pressTime x) \<and>
        releaseTime x = since (sessionStartTime s) now \<and>
        dwellTime x = releaseTime x - pressTime x \<and>
        flightTime x = (if keystrokeData s = [] then 0
                        else pressTime x - releaseTime (last (keystrokeData s)))"
    then obtain x where eq: "handleKeyUp e now s =
          s\<lparr> keystrokeData := keystrokeData s @ [x],
             keyDownTimes := (keyDownTimes s)(e_key e := None) \<rparr>"
      and rec: "isRecording s"
      and buf: "keyDownTimes s (e_key e) = Some (pressTime x)"
      and rel: "releaseTime x = since (sessionStartTime s) now"
      and dw: "dwellTime x = releaseTime x - pressTime x"
      by blast
    have px: "pressTime x \<le> releaseTime x" using t buf rel by (simp add: timely_def)
    have srt: "sorted (map releaseTime (keystrokeData s @ [x]))"
      using t rel by (simp add: timely_def sorted_append)
    show ?thesis using t rec px dw rel srt unfolding eq
      by (auto simp: timely_def phase_simps)
  qed
qed

lemma changeView_timely: "timely lo s \<Longrightarrow> timely lo (changeView v s)"
proof (cases "v = view s")
  case True then show "timely lo s \<Longrightarrow> ?thesis" by (simp add: changeView_def)
next
  case False
  assume t: "timely lo s"
  show ?thesis
  proof (cases "v = Train \<or> v = Test")
    case True
    then show ?thesis using False timely_reset [of lo "s\<lparr>view := v\<rparr>"]
      by (simp add: changeView_def)
  next
    case F: False
    then have "changeView v s = s\<lparr>view := v\<rparr>" using False by (simp add: changeView_def)
    then show ?thesis using t by (simp add: timely_def phase_simps)
  qed
qed

lemma quiet_timely:
  assumes "timely lo s" and "clock_reads [ev] = []"
  shows "timely lo (fst (step ev s))"
proof (cases ev)
  case (KeyDown e now) then show ?thesis using assms(2) by simp
next
  case (KeyUp e now) then show ?thesis using assms(2) by simp
next
  case (Change v) then show ?thesis using assms(1)
    by (simp add: handleChange_def timely_def phase_simps)
next
  case Reset then show ?thesis using timely_reset [of lo s] by simp
next
  case (SetView v) then show ?thesis using changeView_timely [OF assms(1)] by simp
next
  case (SetUsername u) then show ?thesis using assms(1)
    by (simp add: timely_def phase_simps)
qed

lemma run_timely:
  "timely lo s \<Longrightarrow> sorted (lo # clock_reads evs) \<Longrightarrow> \<exists>lo'. timely lo' (run evs s)"
proof (induction evs arbitrary: lo s)
  case Nil then show ?case by auto
next
  case (Cons ev evs)
  show ?case
  proof (cases ev)
    case (KeyDown e now)
    then have "lo \<le> now" "sorted (now # clock_reads evs)" using Cons.prems(2) by simp_all
    then show ?thesis
      using Cons.IH [OF keydown_timely [OF Cons.prems(1), of now e]] KeyDown by simp
  next
    case (KeyUp e now)
    then have "lo \<le> now" "sorted (now # clock_reads evs)" using Cons.prems(2) by simp_all
    then show ?thesis
      using Cons.IH [OF keyup_timely [OF Cons.prems(1), of now e]] KeyUp by simp
  next
    case (Change v)
    then have q: "clock_reads [ev] = []" "sorted (lo # clock_reads evs)"
      using Cons.prems(2) by simp_all
    show ?thesis using Cons.IH [OF quiet_timely [OF Cons.prems(1) q(1)] q(2)] by simp
  next
    case Reset
    then have q: "clock_reads [ev] = []" "sorted (lo # clock_reads evs)"
      using Cons.prems(2) by simp_all
    show ?thesis using Cons.IH [OF quiet_timely [OF Cons.prems(1) q(1)] q(2)] by simp
  next
    case (SetView v)
    then have q: "clock_reads [ev] = []" "sorted (lo # clock_reads evs)"
      using Cons.prems(2) by simp_all
    show ?thesis using Cons.IH [OF quiet_timely [OF Cons.prems(1) q(1)] q(2)] by simp
  next
    case (SetUsername u)
    then have q: "clock_reads [ev] = []" "sorted (lo # clock_reads evs)"
      using Cons.prems(2) by simp_all
    show ?thesis using Cons.IH [OF quiet_timely [OF Cons.prems(1) q(1)] q(2)] by simp
  qed
qed

lemma run_init_timely:
  assumes "sorted (clock_reads evs)"
  shows "\<exists>lo. timely lo (run evs App_init)"
proof (cases "clock_reads evs")
  case Nil
  then show ?thesis using run_timely [OF timely_init [of 0], of evs] by simp
next
  case (Cons t ts)
  then have "sorted (t # clock_reads evs)" using assms by simp
  then show ?thesis using run_timely [OF timely_init [of t], of evs] by simp
qed

lemma sorted_release:
  assumes "sorted (clock_reads evs)"
  shows "sorted (map releaseTime (keystrokeData (run evs App_init)))"
  using run_init_timely [OF assms] by (auto simp: timely_def)

subsection \<open>How a step changes the recorded sequence\<close>

lemma keydown_data:
  "(\<exists>n. keystrokeData (fst (handleKeyDown e now s)) = take n (keystrokeData s))"
proof (cases "isRecording s")
  case False
  then have "keystrokeData (fst (handleKeyDown e now s)) = take 0 (keystrokeData s) \<or>
             keystrokeData (fst (handleKeyDown e now s)) = take (length (keystrokeData s)) (keystrokeData s)"
    by (simp add: handleKeyDown_def startSession_def)
  then show ?thesis by blast
next
  case True
  then have "keystrokeData (fst (handleKeyDown e now s)) = take (length (keystrokeData s) - 1) (keystrokeData s) \<or>
             keystrokeData (fst (handleKeyDown e now s)) = take (length (keystrokeData s)) (keystrokeData s)"
    by (simp add: handleKeyDown_def stopSession_def Let_def butlast_conv_take)
  then show ?thesis by blast
qed

lemma step_data:
  "(\<exists>n. keystrokeData (fst (step ev s)) = take n (keystrokeData s)) \<or>
   (\<exists>e now x. ev = KeyUp e now \<and> keystrokeData (fst (step ev s)) = keystrokeData s @ [x] \<and>
      releaseTime x = since (sessionStartTime s) now)"
proof (cases ev)
  case (KeyDown e now) then show ?thesis using keydown_data [of e now s] by simp
next
  case (KeyUp e now)
  from keyup_cases [of e now s] show ?thesis
  proof
    assume "handleKeyUp e now s = s"
    then have "keystrokeData (fst (step ev s)) = take (length (keystrokeData s)) (keystrokeData s)"
      using KeyUp by simp
    then show ?thesis by blast
  next
    assume "\<exists>x. handleKeyUp e now s =
          s\<lparr> keystrokeData := keystrokeData s @ [x],
             keyDownTimes := (keyDownTimes s)(e_key e := None) \<rparr> \<and>
        isRecording s \<and> printable (e_key e) \<and>
        keyDownTimes s (e_key e) = Some (pressTime x) \<and>
        releaseTime x = since (sessionStartTime s) now \<and>
        dwellTime x = releaseTime x - pressTime x \<and>
        flightTime x = (if keystrokeData s = [] then 0
                        else pressTime x - releaseTime (last (keystrokeData s)))"
    then obtain x where "handleKeyUp e now s =
          s\<lparr> keystrokeData := keystrokeData s @ [x],
             keyDownTimes := (keyDownTimes s)(e_key e := None) \<rparr>"
      and "releaseTime x = since (sessionStartTime s) now" by blast
    then have "ev = KeyUp e now \<and> keystrokeData (fst (step ev s)) = keystrokeData s @ [x] \<and>
      releaseTime x = since (sessionStartTime s) now" using KeyUp by simp
    then show ?thesis by blast
  qed
next
  case (Change v)
  then have "keystrokeData (fst (step ev s)) = take (length (keystrokeData s)) (keystrokeData s)"
    by (simp add: handleChange_def)
  then show ?thesis by blast
next
  case Reset
  then have "keystrokeData (fst (step ev s)) = take 0 (keystrokeData s)"
    by (simp add: resetInternalState_def)
  then show ?thesis by blast
next
  case (SetView v)
  then have "keystrokeData (fst (step ev s)) = take 0 (keystrokeData s) \<or>
     keystrokeData (fst (step ev s)) = take (length (keystrokeData s)) (keystrokeData s)"
    by (simp add: changeView_def resetInternalState_def)
  then show ?thesis by blast
next
  case (SetUsername u)
  then have "keystrokeData (fst (step ev s)) = take (length (keystrokeData s)) (keystrokeData s)"
    by simp
  then show ?thesis by blast
qed

lemma finalize_pending:
  assumes "phase_of s = Recording" and "e_key e = lit ''Enter''"
  shows "keystrokeData (fst (handleKeyDown e now s)) = keystrokeData s"
    and "keyDownTimes (fst (handleKeyDown e now s)) = keyDownTimes s"
    and "\<forall>p. snd (handleKeyDown e now s) = Some p \<longrightarrow> keystrokes p = keystrokeData s"
    and "\<forall>e' now'. handleKeyUp e' now' (fst (handleKeyDown e now s)) = fst (handleKeyDown e now s)"
  using assms
  by (auto simp: phase_simps handleKeyDown_def stopSession_def submitData_def handleKeyUp_def)

subsection \<open>Auto-repeat and the completed state\<close>

lemma repeat_keydown_quiet:
  assumes "phase_of s \<noteq> Idle" and "printable (e_key e)" and "e_repeat e"
  shows "handleKeyDown e now s = (s, None)"
  using assms by (auto simp: handleKeyDown_def printable_def Let_def phase_simps)

lemma repeats_quiet:
  assumes "phase_of s \<noteq> Idle" and "printable k"
  shows "\<forall>r\<in>set rs. is_repeat_of k r \<Longrightarrow> run rs s = s"
proof (induction rs)
  case Nil then show ?case by simp
next
  case (Cons r rs)
  from Cons.prems have "is_repeat_of k r" by simp
  then obtain e now where r: "r = KeyDown e now" and e: "e_key e = k" "e_repeat e"
    by (cases r) simp_all
  have "fst (step r s) = s" using repeat_keydown_quiet [of s e now] assms e r by simp
  then show ?case using Cons by simp
qed

lemma step_completed:
  assumes "phase_of s = Completed" and "\<not> external_reset ev"
  shows "snd (step ev s) = None \<and> (\<exists>u. fst (step ev s) = s\<lparr> username := u \<rparr>)"
proof (cases ev)
  case (KeyDown e now)
  then have "step ev s = (s, None)" using assms(1) by (simp add: phase_simps handleKeyDown_def)
  then have "snd (step ev s) = None \<and> fst (step ev s) = s\<lparr> username := username s \<rparr>" by simp
  then show ?thesis by blast
next
  case (KeyUp e now)
  then have "step ev s = (s, None)" using assms(1) by (simp add: phase_simps handleKeyUp_def)
  then have "snd (step ev s) = None \<and> fst (step ev s) = s\<lparr> username := username s \<rparr>" by simp
  then show ?thesis by blast
next
  case (Change v)
  then have "step ev s = (s, None)" using assms(1) by (simp add: phase_simps handleChange_def)
  then have "snd (step ev s) = None \<and> fst (step ev s) = s\<lparr> username := username s \<rparr>" by simp
  then show ?thesis by blast
next
  case Reset then show ?thesis using assms(2) by simp
next
  case (SetView v) then show ?thesis using assms(2) by simp
next
  case (SetUsername u) then show ?thesis by auto
qed

lemma run_completed:
  "phase_of s = Completed \<Longrightarrow> \<forall>ev\<in>set evs. \<not> external_reset ev \<Longrightarrow>
   posts evs s = [] \<and> (\<exists>u. run evs s = s\<lparr> username := u \<rparr>)"
proof (induction evs arbitrary: s)
  case Nil
  have "run [] s = s\<lparr> username := username s \<rparr>" by simp
  then have "\<exists>u. run [] s = s\<lparr> username := u \<rparr>" by (rule exI)
  then show ?case by simp
next
  case (Cons ev evs)
  from step_completed [OF Cons.prems(1), of ev] Cons.prems(2)
  obtain u where n: "snd (step ev s) = None" and u: "fst (step ev s) = s\<lparr> username := u \<rparr>"
    by auto
  have "phase_of (s\<lparr> username := u \<rparr>) = Completed" using Cons.prems(1) by (simp add: phase_simps)
  from Cons.IH [OF this] Cons.prems(2)
  obtain u' where "posts evs (s\<lparr> username := u \<rparr>) = []"
    and "run evs (s\<lparr> username := u \<rparr>) = s\<lparr> username := u, username := u' \<rparr>" by auto
  then have "posts (ev # evs) s = [] \<and> run (ev # evs) s = s\<lparr> username := u' \<rparr>"
    using n u by simp
  then show ?case by blast
qed

subsection \<open>The concrete runs, evaluated\<close>

lemma idle_state_eq:
  "idle_state = \<lparr> view = Train, username = lit ''alice'', isRecording = False,
     isCompleted = False, keystrokeData = [], typed_text = [], sessionStartTime = None,
     keyDownTimes = Map.empty \<rparr>"
  by (simp add: idle_state_def App_init_def handler_defs)

lemma pending_run:
  "run pending_trace App_init = \<lparr> view = Train, username = lit ''alice'', isRecording = True,
     isCompleted = False, keystrokeData = [], typed_text = [], sessionStartTime = Some 1000,
     keyDownTimes = [lit ''o'' \<mapsto> 100] \<rparr>"
  by (simp add: pending_trace_def App_init_def handler_defs)

lemma completed_run:
  "run completed_trace App_init = \<lparr> view = Train, username = lit ''alice'', isRecording = False,
     isCompleted = True, keystrokeData = [], typed_text = [], sessionStartTime = Some 1000,
     keyDownTimes = [lit ''o'' \<mapsto> 100] \<rparr>"
  by (simp add: completed_trace_def run_append pending_run handler_defs)

lemma overlap_run:
  "keystrokeData (run overlap_trace App_init) =
     [\<lparr> key = lit ''o'', keyCode = lit ''0'', pressTime = 100, releaseTime = 200,
         dwellTime = 100, flightTime = 0 \<rparr>,
      \<lparr> key = lit ''Space'', keyCode = lit ''0'', pressTime = 150, releaseTime = 230,
         dwellTime = 80, flightTime = - 50 \<rparr>]"
  by (simp add: overlap_trace_def App_init_def handler_defs String_of_0)

lemma overlap_state:
  "isRecording (run overlap_trace App_init) \<and> \<not> isCompleted (run overlap_trace App_init) \<and>
   view (run overlap_trace App_init) = Train \<and>
   sessionStartTime (run overlap_trace App_init) = Some 1000"
  by (simp add: overlap_trace_def App_init_def handler_defs)

lemma overlap_clock: "sorted (clock_reads overlap_trace)"
  by (simp add: overlap_trace_def)

subsection \<open>Ranking\<close>

lemma sorted_fst_of_pairs:
  "sorted (map (\<lambda>m. (f m, g m)) xs) \<Longrightarrow> sorted (map f xs)"
  by (induction xs) (auto simp: less_eq_prod_def)

lemma rank_sorted: "sorted (map score (rank_matches ms))"
  unfolding rank_matches_def
  using sorted_sort_key [of "\<lambda>m. (score m, m_identity m)" ms]
  by (rule sorted_fst_of_pairs)

lemma demo_verify:
  "verify demo_config (lit ''alice'') demo_test demo_users =
   Inr \<lparr> claimedIdentity = lit ''alice'',
         matches = [\<lparr> m_identity = lit ''alice'', score = 7, confidencePercent = 93 \<rparr>,
                    \<lparr> m_identity = lit ''bob'', score = 83, confidencePercent = 17 \<rparr>],
         verified = True \<rparr>"
  by (simp add: verify_def demo_config_def demo_users_def demo_test_def alice_sample_def
      bob_sample_def Let_def rank_matches_def manhattan_def referenceProfile_def
      key_distance_def confidence_def arith_mean_def less_eq_prod_def)

section \<open>The claims\<close>

text \<open>
  C1. For every verification request that yields a result, the matches are sorted ascending
  by distance, and \<open>verified\<close> holds exactly when there is a top-ranked entry, its
  identity is the claimed identity and its confidence is at least the acceptance
  threshold. A request with a non-empty test profile always yields a result. (Stated of
  the engine as modelled from the specification.)
\<close>

theorem verify_ranked:
  "(test \<noteq> [] \<longrightarrow> (\<exists>r. verify cfg claimed test users = Inr r)) \<and>
   (\<forall>r. verify cfg claimed test users = Inr r \<longrightarrow>
      sorted (map score (matches r)) \<and>
      (verified r \<longleftrightarrow>
         matches r \<noteq> [] \<and> m_identity (hd (matches r)) = claimed \<and>
         acceptanceThreshold cfg \<le> confidencePercent (hd (matches r))))"
  by (auto simp: verify_def Let_def rank_sorted split: list.splits)

text \<open>
  Witness of C1: \<open>alice\<close> is ranked first at distance 7 with confidence 93, ahead of
  \<open>bob\<close> at distance 83, and is verified against the threshold 50.
\<close>

theorem verify_ranked_witness:
  "demo_test \<noteq> [] \<and>
   (\<exists>r. verify demo_config (lit ''alice'') demo_test demo_users = Inr r \<and>
        map score (matches r) = [7, 83] \<and> sorted (map score (matches r)) \<and>
        m_identity (hd (matches r)) = lit ''alice'' \<and>
        acceptanceThreshold demo_config \<le> confidencePercent (hd (matches r)) \<and>
        verified r)"
proof -
  note v = verify_ranked [of demo_test demo_config "lit ''alice''" demo_users]
  have t: "demo_test \<noteq> []" by (simp add: demo_test_def)
  with v obtain r where r: "verify demo_config (lit ''alice'') demo_test demo_users = Inr r"
    by blast
  with v have s: "sorted (map score (matches r))" by blast
  from r have m: "matches r = [\<lparr> m_identity = lit ''alice'', score = 7, confidencePercent = 93 \<rparr>,
                    \<lparr> m_identity = lit ''bob'', score = 83, confidencePercent = 17 \<rparr>]"
    by (auto simp: demo_verify)
  have a: "acceptanceThreshold demo_config \<le> confidencePercent (hd (matches r))"
    by (simp add: m demo_config_def)
  from v r have "verified r \<longleftrightarrow>
         matches r \<noteq> [] \<and> m_identity (hd (matches r)) = lit ''alice'' \<and>
         acceptanceThreshold demo_config \<le> confidencePercent (hd (matches r))" by blast
  with a have "verified r" by (simp add: m)
  with r s a t show ?thesis by (simp add: m)
qed

text \<open>
  C2. In every state the recorder can reach, the first recorded event has flight time 0
  and every later one has flight time equal to its press time minus the release time
  of the event recorded just before it. The difference is an integer subtraction: a
  negative value is stored as it is.
\<close>

theorem flight_chain:
  "(keystrokeData (run evs App_init) \<noteq> [] \<longrightarrow>
      flightTime (keystrokeData (run evs App_init) ! 0) = 0) \<and>
   (\<forall>i. Suc i < length (keystrokeData (run evs App_init)) \<longrightarrow>
      flightTime (keystrokeData (run evs App_init) ! Suc i) =
        pressTime (keystrokeData (run evs App_init) ! Suc i) -
        releaseTime (keystrokeData (run evs App_init) ! i))"
proof -
  have "chained (keystrokeData App_init)" by (simp add: App_init_def chained_Nil)
  then have "chained (keystrokeData (run evs App_init))" by (rule run_chained)
  then show ?thesis by (simp add: chained_def)
qed

text \<open>
  Witness of C2: the space bar goes down 50 ms before \<open>o\<close> is released, and its event
  carries the flight time -50.
\<close>

theorem flight_chain_witness:
  "keystrokeData (run overlap_trace App_init) \<noteq> [] \<and>
   flightTime (keystrokeData (run overlap_trace App_init) ! 0) = 0 \<and>
   Suc 0 < length (keystrokeData (run overlap_trace App_init)) \<and>
   flightTime (keystrokeData (run overlap_trace App_init) ! Suc 0) =
     pressTime (keystrokeData (run overlap_trace App_init) ! Suc 0) -
     releaseTime (keystrokeData (run overlap_trace App_init) ! 0) \<and>
   flightTime (keystrokeData (run overlap_trace App_init) ! Suc 0) = - 50"
  using flight_chain [of overlap_trace] by (simp add: overlap_run)

text \<open>
  C3. The recorded sequence is in the order of release. Along every run whose clock values
  never decrease (as the instants at which the events are handled do) the release times
  ascend; and whatever the clock reads, a step changes the sequence only by cutting it
  to a prefix or, on a key-up, by appending one event stamped with the time of that
  key-up. A press that is still buffered when Enter finalizes the session contributes
  no event: finalizing leaves the sequence as it is, what is posted holds that sequence
  only, and a later key-up changes nothing.
\<close>

theorem release_order:
  "(sorted (clock_reads evs) \<longrightarrow>
      sorted (map releaseTime (keystrokeData (run evs App_init)))) \<and>
   ((\<exists>n. keystrokeData (fst (step ev s)) = take n (keystrokeData s)) \<or>
    (\<exists>e now x. ev = KeyUp e now \<and>
       keystrokeData (fst (step ev s)) = keystrokeData s @ [x] \<and>
       releaseTime x = since (sessionStartTime s) now)) \<and>
   (phase_of s = Recording \<and> keyDownTimes s k = Some t \<and> e_key e = lit ''Enter'' \<longrightarrow>
      keystrokeData (fst (handleKeyDown e now s)) = keystrokeData s \<and>
      (\<forall>p. snd (handleKeyDown e now s) = Some p \<longrightarrow> keystrokes p = keystrokeData s) \<and>
      (\<forall>e' now'. handleKeyUp e' now' (fst (handleKeyDown e now s)) =
         fst (handleKeyDown e now s)))"
  using sorted_release [of evs] step_data [of ev s] finalize_pending [of s e now]
  by blast

text \<open>
  Witness of C3: the release times of the overlapping run are 200 and 230; Enter pressed
  while \<open>o\<close> is held finalizes an empty session, posts nothing, and the release of \<open>o\<close>
  afterwards is ignored.
\<close>

theorem release_order_witness:
  "sorted (clock_reads overlap_trace) \<and>
   map releaseTime (keystrokeData (run overlap_trace App_init)) = [200, 230] \<and>
   sorted (map releaseTime (keystrokeData (run overlap_trace App_init))) \<and>
   phase_of (run pending_trace App_init) = Recording \<and>
   keyDownTimes (run pending_trace App_init) (lit ''o'') = Some 100 \<and>
   e_key (plain_key (lit ''Enter'')) = lit ''Enter'' \<and>
   keystrokeData (fst (handleKeyDown (plain_key (lit ''Enter'')) 1300
      (run pending_trace App_init))) = [] \<and>
   snd (handleKeyDown (plain_key (lit ''Enter'')) 1300 (run pending_trace App_init)) = None \<and>
   handleKeyUp (plain_key (lit ''o'')) 1400
      (fst (handleKeyDown (plain_key (lit ''Enter'')) 1300 (run pending_trace App_init))) =
     fst (handleKeyDown (plain_key (lit ''Enter'')) 1300 (run pending_trace App_init))"
proof -
  note r = release_order [of overlap_trace "KeyUp (plain_key (lit ''o'')) 1200"
      "run pending_trace App_init" "lit ''o''" 100 "plain_key (lit ''Enter'')" 1300]
  have h: "phase_of (run pending_trace App_init) = Recording"
    "keyDownTimes (run pending_trace App_init) (lit ''o'') = Some 100"
    "e_key (plain_key (lit ''Enter'')) = lit ''Enter''"
    "keystrokeData (run pending_trace App_init) = []"
    by (simp_all add: pending_run phase_of_def plain_key_def)
  from r overlap_clock
  have a: "sorted (map releaseTime (keystrokeData (run overlap_trace App_init)))" by blast
  from r h have b: "keystrokeData (fst (handleKeyDown (plain_key (lit ''Enter'')) 1300
      (run pending_trace App_init))) = []" by simp
  from r h have c: "\<forall>p. snd (handleKeyDown (plain_key (lit ''Enter'')) 1300
      (run pending_trace App_init)) = Some p \<longrightarrow> keystrokes p = []" by simp
  from r h have d: "handleKeyUp (plain_key (lit ''o'')) 1400
      (fst (handleKeyDown (plain_key (lit ''Enter'')) 1300 (run pending_trace App_init))) =
     fst (handleKeyDown (plain_key (lit ''Enter'')) 1300 (run pending_trace App_init))" by blast
  have e: "snd (handleKeyDown (plain_key (lit ''Enter'')) 1300 (run pending_trace App_init)) = None"
    by (simp add: pending_run handler_defs)
  show ?thesis using overlap_clock a b d e h by (simp add: overlap_run)
qed

text \<open>
  C4. While recording, a key-down of Enter moves the recorder to the completed state and
  changes the two flags only. When no event is recorded at that moment nothing is
  posted; otherwise the recorded sequence is.
\<close>

theorem enter_finalizes:
  "phase_of s = Recording \<Longrightarrow> e_key e = lit ''Enter'' \<Longrightarrow>
   fst (handleKeyDown e now s) = s\<lparr> isRecording := False, isCompleted := True \<rparr> \<and>
   phase_of (fst (handleKeyDown e now s)) = Completed \<and>
   (keystrokeData s = [] \<longrightarrow> snd (handleKeyDown e now s) = None) \<and>
   (keystrokeData s \<noteq> [] \<longrightarrow>
      (\<exists>p. snd (handleKeyDown e now s) = Some p \<and> keystrokes p = keystrokeData s))"
  by (simp add: phase_simps handleKeyDown_def stopSession_def submitData_def)

text \<open>
  Witness of C4: Enter while nothing is recorded yet, and Enter after the overlapping run.
\<close>

theorem enter_finalizes_witness:
  "phase_of (run pending_trace App_init) = Recording \<and>
   e_key (plain_key (lit ''Enter'')) = lit ''Enter'' \<and>
   keystrokeData (run pending_trace App_init) = [] \<and>
   phase_of (fst (handleKeyDown (plain_key (lit ''Enter'')) 1300 (run pending_trace App_init)))
     = Completed \<and>
   snd (handleKeyDown (plain_key (lit ''Enter'')) 1300 (run pending_trace App_init)) = None \<and>
   phase_of (run overlap_trace App_init) = Recording \<and>
   keystrokeData (run overlap_trace App_init) \<noteq> [] \<and>
   map_option keystrokes
     (snd (handleKeyDown (plain_key (lit ''Enter'')) 1300 (run overlap_trace App_init))) =
     Some (keystrokeData (run overlap_trace App_init))"
proof -
  have h: "phase_of (run pending_trace App_init) = Recording"
    "e_key (plain_key (lit ''Enter'')) = lit ''Enter''"
    "keystrokeData (run pending_trace App_init) = []"
    "phase_of (run overlap_trace App_init) = Recording"
    "keystrokeData (run overlap_trace App_init) \<noteq> []"
    by (simp_all add: pending_run overlap_run overlap_state plain_key_def phase_of_def)
  note a = enter_finalizes [OF h(1,2), of 1300]
  note b = enter_finalizes [OF h(4,2), of 1300]
  from a h(3) have a1: "phase_of (fst (handleKeyDown (plain_key (lit ''Enter'')) 1300
      (run pending_trace App_init))) = Completed"
    and a2: "snd (handleKeyDown (plain_key (lit ''Enter'')) 1300 (run pending_trace App_init)) = None"
    by blast+
  from b h(5) obtain p where
    "snd (handleKeyDown (plain_key (lit ''Enter'')) 1300 (run overlap_trace App_init)) = Some p"
    "keystrokes p = keystrokeData (run overlap_trace App_init)" by blast
  then have "map_option keystrokes
     (snd (handleKeyDown (plain_key (lit ''Enter'')) 1300 (run overlap_trace App_init))) =
     Some (keystrokeData (run overlap_trace App_init))" by simp
  with a1 a2 h show ?thesis by simp
qed

text \<open>
  C5, as amended. While recording, a key-down of Backspace drops the last recorded event
  (the most recently completed one) and changes nothing else: no event is added, no
  press is buffered, nothing is posted. On an empty sequence it changes nothing at all.
  (That the recorded sequence then mirrors the live content is not claimed.)
\<close>

theorem backspace_drops_last:
  "phase_of s = Recording \<Longrightarrow> e_key e = lit ''Backspace'' \<Longrightarrow>
   handleKeyDown e now s = (s\<lparr> keystrokeData := butlast (keystrokeData s) \<rparr>, None) \<and>
   (keystrokeData s \<noteq> [] \<longrightarrow>
      keystrokeData (fst (handleKeyDown e now s)) @ [last (keystrokeData s)] =
        keystrokeData s)"
  by (simp add: phase_simps handleKeyDown_def)

text \<open>
  Witness of C5 as amended: after the overlapping run, Backspace leaves the event of \<open>o\<close>
  only.
\<close>

theorem backspace_drops_last_witness:
  "phase_of (run overlap_trace App_init) = Recording \<and>
   e_key (plain_key (lit ''Backspace'')) = lit ''Backspace'' \<and>
   keystrokeData (run overlap_trace App_init) \<noteq> [] \<and>
   keystrokeData (fst (handleKeyDown (plain_key (lit ''Backspace'')) 1300
       (run overlap_trace App_init))) =
     [\<lparr> key = lit ''o'', keyCode = lit ''0'', pressTime = 100, releaseTime = 200,
         dwellTime = 100, flightTime = 0 \<rparr>] \<and>
   keyDownTimes (fst (handleKeyDown (plain_key (lit ''Backspace'')) 1300
       (run overlap_trace App_init))) = keyDownTimes (run overlap_trace App_init) \<and>
   snd (handleKeyDown (plain_key (lit ''Backspace'')) 1300 (run overlap_trace App_init)) = None"
  using backspace_drops_last [of "run overlap_trace App_init" "plain_key (lit ''Backspace'')" 1300]
  by (simp add: overlap_run overlap_state plain_key_def phase_of_def)

text \<open>
  Counterexample to C5 as stated: the recorded sequence does not mirror the live content
  after a deletion. In the rollover run Backspace is pressed while recording, when the
  only recorded event is that of \<open>a\<close>: the text area loses the \<open>b\<close> typed last, the
  recorder loses the event of \<open>a\<close> released last. After \<open>b\<close> is released the live text is
  \<open>Ta\<close> and the recorded keys are \<open>b\<close> alone.
\<close>

theorem backspace_mirror_counterexample:
  "phase_of (run (take 10 rollover_trace) App_init) = Recording \<and>
   map key (keystrokeData (run (take 10 rollover_trace) App_init)) = [lit ''a''] \<and>
   rollover_trace ! 10 = KeyDown (plain_key (lit ''Backspace'')) 1250 \<and>
   typed_text (run rollover_trace App_init) = lit ''Ta'' \<and>
   map key (keystrokeData (run rollover_trace App_init)) = [lit ''b'']"
  by (simp add: rollover_trace_def App_init_def handler_defs String_of_0 phase_of_def)

text \<open>
  C6, as amended. While recording or completed, a key-down that passes the suppression
  test (a key whose name starts with F and is longer than one unit, Escape, Tab, or any
  key with the control or the meta modifier held), other than Enter and Backspace,
  leaves the state as it is and posts nothing. In the idle state every key-down, these
  included, does what \<open>startSession\<close> does; and in every idle state the recorder can reach
  that is the transition to the recording state, with the session start set to the
  clock value.
\<close>

theorem suppressed_keys:
  "(phase_of s \<noteq> Idle \<and> suppressed e \<and> e_key e \<noteq> lit ''Enter'' \<and>
      e_key e \<noteq> lit ''Backspace'' \<longrightarrow> handleKeyDown e now s = (s, None)) \<and>
   (phase_of s = Idle \<longrightarrow> handleKeyDown e now s = (startSession now s, None)) \<and>
   (phase_of (run evs App_init) = Idle \<longrightarrow>
      phase_of (fst (handleKeyDown e now (run evs App_init))) = Recording \<and>
      sessionStartTime (fst (handleKeyDown e now (run evs App_init))) = Some now \<and>
      snd (handleKeyDown e now (run evs App_init)) = None)"
proof -
  have a: "phase_of s \<noteq> Idle \<and> suppressed e \<and> e_key e \<noteq> lit ''Enter'' \<and>
      e_key e \<noteq> lit ''Backspace'' \<longrightarrow> handleKeyDown e now s = (s, None)"
    by (simp add: phase_of_def handleKeyDown_def)
  have b: "phase_of s' = Idle \<longrightarrow> handleKeyDown e now s' = (startSession now s', None)" for s'
    by (simp add: phase_of_def handleKeyDown_def)
  have c: "phase_of (fst (handleKeyDown e now (run evs App_init))) = Recording \<and>
      sessionStartTime (fst (handleKeyDown e now (run evs App_init))) = Some now"
    if i: "phase_of (run evs App_init) = Idle"
  proof -
    have "sessionStartTime (run evs App_init) = None"
      using init_idle_unset [of evs] i by (simp add: idle_unset_def)
    from idle_keydown_starts [OF i this] show ?thesis by simp
  qed
  show ?thesis using a b [of s] b [of "run evs App_init"] c by simp
qed

text \<open>
  Witness of C6 as amended: F5 while recording changes nothing, and F5 on the freshly
  opened training page starts the session.
\<close>

theorem suppressed_keys_witness:
  "phase_of (run pending_trace App_init) \<noteq> Idle \<and> suppressed (plain_key (lit ''F5'')) \<and>
   e_key (plain_key (lit ''F5'')) \<noteq> lit ''Enter'' \<and>
   e_key (plain_key (lit ''F5'')) \<noteq> lit ''Backspace'' \<and>
   handleKeyDown (plain_key (lit ''F5'')) 1300 (run pending_trace App_init) =
     (run pending_trace App_init, None) \<and>
   phase_of idle_state = Idle \<and>
   handleKeyDown (plain_key (lit ''F5'')) 1300 idle_state = (startSession 1300 idle_state, None) \<and>
   phase_of (fst (handleKeyDown (plain_key (lit ''F5'')) 1300 idle_state)) = Recording \<and>
   sessionStartTime (fst (handleKeyDown (plain_key (lit ''F5'')) 1300 idle_state)) = Some 1300"
proof -
  note p = suppressed_keys [of "run pending_trace App_init" "plain_key (lit ''F5'')" 1300 "[]"]
  note q = suppressed_keys [of idle_state "plain_key (lit ''F5'')" 1300
      "[SetUsername (lit ''alice''), SetView Train]"]
  have h: "phase_of (run pending_trace App_init) \<noteq> Idle" "suppressed (plain_key (lit ''F5''))"
    "e_key (plain_key (lit ''F5'')) \<noteq> lit ''Enter''"
    "e_key (plain_key (lit ''F5'')) \<noteq> lit ''Backspace''"
    "phase_of idle_state = Idle"
    by (simp_all add: pending_run idle_state_eq phase_of_def suppressed_def startsWith_def
        plain_key_def take_lit)
  from p h have 1: "handleKeyDown (plain_key (lit ''F5'')) 1300 (run pending_trace App_init) =
     (run pending_trace App_init, None)" by blast
  from q h(5) have 2: "handleKeyDown (plain_key (lit ''F5'')) 1300 idle_state =
     (startSession 1300 idle_state, None)" by blast
  have i: "phase_of (run [SetUsername (lit ''alice''), SetView Train] App_init) = Idle"
    using h(5) by (simp only: idle_state_def)
  from q i have 3: "phase_of (fst (handleKeyDown (plain_key (lit ''F5'')) 1300
      (run [SetUsername (lit ''alice''), SetView Train] App_init))) = Recording"
    and 4: "sessionStartTime (fst (handleKeyDown (plain_key (lit ''F5'')) 1300
      (run [SetUsername (lit ''alice''), SetView Train] App_init))) = Some 1300" by blast+
  show ?thesis using h 1 2 3 4 by (simp only: idle_state_def) simp
qed

text \<open>
  Counterexample to C6 as stated: in the idle state a key-down of Escape starts the
  session, and while recording a key-down of Enter with the control modifier held
  completes it.
\<close>

theorem suppressed_keys_counterexample:
  "suppressed (plain_key (lit ''Escape'')) \<and>
   phase_of idle_state = Idle \<and>
   phase_of (fst (handleKeyDown (plain_key (lit ''Escape'')) 1000 idle_state)) = Recording \<and>
   sessionStartTime (fst (handleKeyDown (plain_key (lit ''Escape'')) 1000 idle_state)) = Some 1000 \<and>
   suppressed (ctrl_key (lit ''Enter'')) \<and>
   phase_of (run pending_trace App_init) = Recording \<and>
   phase_of (fst (handleKeyDown (ctrl_key (lit ''Enter'')) 1300 (run pending_trace App_init)))
     = Completed"
  by (simp add: idle_state_eq pending_run phase_of_def ctrl_key_def handler_defs take_lit)

text \<open>
  C7. In a reachable state in which the press of key \<open>k\<close> is buffered with time \<open>t\<close>: any
  number of auto-repeat key-downs of \<open>k\<close> leave the state as it is, so \<open>t\<close> stays the
  buffered time; and while recording, a key-up of \<open>k\<close> appends exactly one event, whose
  press time is \<open>t\<close>, and removes \<open>k\<close> from the buffer.
\<close>

theorem autorepeat_one_event:
  assumes "s = run evs App_init" and "keyDownTimes s k = Some t"
  shows "(\<forall>rs. (\<forall>r\<in>set rs. is_repeat_of k r) \<longrightarrow> run rs s = s) \<and>
         (phase_of s = Recording \<longrightarrow>
            (\<forall>e now. e_key e = k \<longrightarrow>
               (\<exists>x. handleKeyUp e now s =
                      s\<lparr> keystrokeData := keystrokeData s @ [x],
                         keyDownTimes := (keyDownTimes s)(k := None) \<rparr> \<and>
                    pressTime x = t \<and> releaseTime x = since (sessionStartTime s) now)))"
proof -
  have "buffer_ok s" using assms(1) init_buffer_ok by simp
  then have p: "printable k" and ni: "phase_of s \<noteq> Idle"
    using assms(2) by (auto simp: buffer_ok_def)
  have "run rs s = s" if "\<forall>r\<in>set rs. is_repeat_of k r" for rs
    using repeats_quiet [OF ni p that] .
  moreover have "\<exists>x. handleKeyUp e now s =
                   s\<lparr> keystrokeData := keystrokeData s @ [x],
                      keyDownTimes := (keyDownTimes s)(k := None) \<rparr> \<and>
                 pressTime x = t \<and> releaseTime x = since (sessionStartTime s) now"
    if "e_key e = k" and "phase_of s = Recording" for e now
    using keyup_closes [of s e t now] p assms(2) that by (simp add: phase_simps)
  ultimately show ?thesis by blast
qed

text \<open>Witness of C7: \<open>o\<close> held from 1100, two auto-repeats, released at 1200.\<close>

theorem autorepeat_one_event_witness:
  "phase_of (run pending_trace App_init) = Recording \<and>
   keyDownTimes (run pending_trace App_init) (lit ''o'') = Some 100 \<and>
   is_repeat_of (lit ''o'') (KeyDown (repeat_key (lit ''o'')) 1130) \<and>
   is_repeat_of (lit ''o'') (KeyDown (repeat_key (lit ''o'')) 1160) \<and>
   run [KeyDown (repeat_key (lit ''o'')) 1130, KeyDown (repeat_key (lit ''o'')) 1160]
     (run pending_trace App_init) = run pending_trace App_init \<and>
   keystrokeData (handleKeyUp (plain_key (lit ''o'')) 1200 (run pending_trace App_init)) =
     [\<lparr> key = lit ''o'', keyCode = lit ''0'', pressTime = 100, releaseTime = 200,
         dwellTime = 100, flightTime = 0 \<rparr>] \<and>
   keyDownTimes (handleKeyUp (plain_key (lit ''o'')) 1200 (run pending_trace App_init)) =
     Map.empty"
proof -
  have h: "phase_of (run pending_trace App_init) = Recording"
    "keyDownTimes (run pending_trace App_init) (lit ''o'') = Some 100"
    by (simp_all add: pending_run phase_of_def)
  note a = autorepeat_one_event [OF refl h(2)]
  have rp: "\<forall>r\<in>set [KeyDown (repeat_key (lit ''o'')) 1130, KeyDown (repeat_key (lit ''o'')) 1160].
      is_repeat_of (lit ''o'') r"
    by (simp add: repeat_key_def plain_key_def)
  from a rp have b: "run [KeyDown (repeat_key (lit ''o'')) 1130, KeyDown (repeat_key (lit ''o'')) 1160]
     (run pending_trace App_init) = run pending_trace App_init" by blast
  have c: "keystrokeData (handleKeyUp (plain_key (lit ''o'')) 1200 (run pending_trace App_init)) =
     [\<lparr> key = lit ''o'', keyCode = lit ''0'', pressTime = 100, releaseTime = 200,
         dwellTime = 100, flightTime = 0 \<rparr>]"
    "keyDownTimes (handleKeyUp (plain_key (lit ''o'')) 1200 (run pending_trace App_init)) =
     Map.empty"
    by (simp_all add: pending_run handler_defs String_of_0)
  show ?thesis using h rp b c by simp
qed

text \<open>
  C8. From the completed state, no run of events other than the reset button or a page
  switch leaves that state, changes the recorded sequence, the buffer, the session start
  or the text, or posts anything. \<open>resetInternalState\<close> gives a fresh idle recorder.
\<close>

theorem completed_is_final:
  "phase_of s = Completed \<longrightarrow>
     ((\<forall>ev\<in>set evs. \<not> external_reset ev) \<longrightarrow>
        phase_of (run evs s) = Completed \<and>
        keystrokeData (run evs s) = keystrokeData s \<and>
        keyDownTimes (run evs s) = keyDownTimes s \<and>
        sessionStartTime (run evs s) = sessionStartTime s \<and>
        typed_text (run evs s) = typed_text s \<and>
        posts evs s = []) \<and>
     phase_of (resetInternalState s) = Idle \<and>
     keystrokeData (resetInternalState s) = [] \<and>
     keyDownTimes (resetInternalState s) = Map.empty \<and>
     sessionStartTime (resetInternalState s) = None"
proof -
  have "phase_of (run evs s) = Completed \<and>
        keystrokeData (run evs s) = keystrokeData s \<and>
        keyDownTimes (run evs s) = keyDownTimes s \<and>
        sessionStartTime (run evs s) = sessionStartTime s \<and>
        typed_text (run evs s) = typed_text s \<and>
        posts evs s = []"
    if c: "phase_of s = Completed" and q: "\<forall>ev\<in>set evs. \<not> external_reset ev"
  proof -
    from run_completed [OF c q] obtain u where "posts evs s = []"
      and "run evs s = s\<lparr> username := u \<rparr>" by blast
    then show ?thesis using c by (simp add: phase_simps)
  qed
  then show ?thesis by (simp add: resetInternalState_def phase_simps)
qed

text \<open>
  Witness of C8: after Enter, a release of the key still held, a further key, Backspace,
  Enter and a change of the text leave everything as it was.
\<close>

theorem completed_is_final_witness:
  "phase_of (run completed_trace App_init) = Completed \<and>
   list_all (\<lambda>ev. \<not> external_reset ev) late_events \<and>
   phase_of (run late_events (run completed_trace App_init)) = Completed \<and>
   keystrokeData (run late_events (run completed_trace App_init)) = [] \<and>
   keyDownTimes (run late_events (run completed_trace App_init)) = [lit ''o'' \<mapsto> 100] \<and>
   posts late_events (run completed_trace App_init) = [] \<and>
   phase_of (resetInternalState (run completed_trace App_init)) = Idle \<and>
   keyDownTimes (resetInternalState (run completed_trace App_init)) = Map.empty"
proof -
  have c: "phase_of (run completed_trace App_init) = Completed"
    by (simp add: completed_run phase_of_def)
  have q: "\<forall>ev\<in>set late_events. \<not> external_reset ev" by (simp add: late_events_def)
  note f = completed_is_final [of "run completed_trace App_init" late_events]
  from f c q have 1: "phase_of (run late_events (run completed_trace App_init)) = Completed"
    and 2: "keystrokeData (run late_events (run completed_trace App_init)) =
            keystrokeData (run completed_trace App_init)"
    and 3: "keyDownTimes (run late_events (run completed_trace App_init)) =
            keyDownTimes (run completed_trace App_init)"
    and 4: "posts late_events (run completed_trace App_init) = []" by blast+
  from f c have 5: "phase_of (resetInternalState (run completed_trace App_init)) = Idle"
    and 6: "keyDownTimes (resetInternalState (run completed_trace App_init)) = Map.empty"
    by blast+
  have 7: "list_all (\<lambda>ev. \<not> external_reset ev) late_events" by (simp add: late_events_def)
  show ?thesis using c 1 2 3 4 5 6 7 by (simp add: completed_run)
qed

text \<open>
  C9. In every state, a key-up of a key with no buffered press time leaves the state
  unchanged.
\<close>

theorem keyup_unbuffered_noop:
  "keyDownTimes s (e_key e) = None \<Longrightarrow> handleKeyUp e now s = s"
  by (simp add: handleKeyUp_def Let_def)

text \<open>
  Witness of C9: the key-up of the key whose key-down started the session; that
  key-down buffered nothing.
\<close>

theorem keyup_unbuffered_noop_witness:
  "keyDownTimes (run pending_trace App_init) (e_key (plain_key (lit ''T''))) = None \<and>
   handleKeyUp (plain_key (lit ''T'')) 1180 (run pending_trace App_init) =
     run pending_trace App_init"
  using keyup_unbuffered_noop [of "run pending_trace App_init" "plain_key (lit ''T'')" 1180]
  by (simp add: pending_run plain_key_def)

text \<open>
  C10. When the clock values read along a run never decrease, every recorded event has a
  release time at or after its press time, its dwell time is their difference, and so
  is not negative.
\<close>

theorem dwell_nonnegative:
  "sorted (clock_reads evs) \<Longrightarrow>
   \<forall>x\<in>set (keystrokeData (run evs App_init)).
      pressTime x \<le> releaseTime x \<and> dwellTime x = releaseTime x - pressTime x \<and>
      0 \<le> dwellTime x"
  using run_init_timely [of evs] by (auto simp: timely_def)

text \<open>Witness of C10: the dwell times of the overlapping run are 100 and 80.\<close>

theorem dwell_nonnegative_witness:
  "sorted (clock_reads overlap_trace) \<and>
   map dwellTime (keystrokeData (run overlap_trace App_init)) = [100, 80] \<and>
   list_all (\<lambda>x. pressTime x \<le> releaseTime x \<and> dwellTime x = releaseTime x - pressTime x \<and>
      0 \<le> dwellTime x) (keystrokeData (run overlap_trace App_init))"
  using dwell_nonnegative [OF overlap_clock] overlap_clock
  by (simp add: overlap_run)

section \<open>Further properties\<close>

text \<open>
  The key-down that starts a session is not timed. \<open>handleKeyDown\<close> tests the value of
  \<open>isRecording\<close> of the render it was created in, which is still false after
  \<open>startSession\<close>, and returns; so the first key of a session buffers no press and its
  key-up records no event.
\<close>

theorem first_keydown_untimed:
  "phase_of s = Idle \<Longrightarrow> falsy (sessionStartTime s) \<Longrightarrow>
   phase_of (fst (handleKeyDown e now s)) = Recording \<and>
   sessionStartTime (fst (handleKeyDown e now s)) = Some now \<and>
   keyDownTimes (fst (handleKeyDown e now s)) = Map.empty \<and>
   handleKeyUp e now' (fst (handleKeyDown e now s)) = fst (handleKeyDown e now s)"
  by (simp add: phase_simps handleKeyDown_def startSession_def handleKeyUp_def Let_def)

text \<open>Witness: the first key on the freshly opened training page.\<close>

theorem first_keydown_untimed_witness:
  "phase_of idle_state = Idle \<and> falsy (sessionStartTime idle_state) \<and>
   phase_of (fst (handleKeyDown (plain_key (lit ''T'')) 1000 idle_state)) = Recording \<and>
   keyDownTimes (fst (handleKeyDown (plain_key (lit ''T'')) 1000 idle_state)) = Map.empty \<and>
   keystrokeData (handleKeyUp (plain_key (lit ''T'')) 1080
     (fst (handleKeyDown (plain_key (lit ''T'')) 1000 idle_state))) = []"
proof -
  have h: "phase_of idle_state = Idle" "falsy (sessionStartTime idle_state)"
    by (simp_all add: idle_state_eq phase_of_def falsy_def)
  note f = first_keydown_untimed [OF h, of "plain_key (lit ''T'')" 1000 1080]
  have "keystrokeData (fst (handleKeyDown (plain_key (lit ''T'')) 1000 idle_state)) = []"
    by (simp add: idle_state_eq handler_defs)
  with f h show ?thesis by simp
qed

text \<open>
  Without the assumption on the clock of C10 a negative dwell time is recorded as it is:
  the clock is set back by 50 ms between the press and the release of \<open>o\<close>.
\<close>

theorem backward_clock_negative_dwell:
  "\<not> sorted (clock_reads backward_clock_trace) \<and>
   keystrokeData (run backward_clock_trace App_init) =
     [\<lparr> key = lit ''o'', keyCode = lit ''0'', pressTime = 100, releaseTime = 50,
         dwellTime = - 50, flightTime = 0 \<rparr>]"
  by (simp add: backward_clock_trace_def App_init_def handler_defs String_of_0)

end
